theory Spec2Isabelle
  imports Main "HOL-Library.AList" "HOL-Library.Sublist"
begin

section \<open>Global bridge scheduler: data model\<close>

text \<open>
  Embedding of \<^verbatim>\<open>core/bridge_scheduler/global_bridge.py\<close>. Python dictionaries keep
  insertion order, so every dictionary that the code iterates over is an association
  list with \<open>AList.update\<close> (overwrite in place, otherwise append).
\<close>

datatype node_state = IDLE | READY | EXECUTING | COMPLETED | FAILED | BLOCKED

fun node_state_value :: "node_state \<Rightarrow> string" where
  "node_state_value IDLE = ''idle''"
| "node_state_value READY = ''ready''"
| "node_state_value EXECUTING = ''executing''"
| "node_state_value COMPLETED = ''completed''"
| "node_state_value FAILED = ''failed''"
| "node_state_value BLOCKED = ''blocked''"

text \<open>
  \<open>datetime.now()\<close> is an input from the environment. The model records that an
  instant was read (\<open>Now\<close>) and that a duration was measured (\<open>Elapsed\<close>), not
  which one; no property below depends on clock values.
\<close>

datatype timestamp = Now

datatype duration = NoTime | Elapsed

text \<open>Values of Python type \<open>Any\<close> (node results, context data), as JSON-like data.\<close>

datatype pyval =
    PNone
  | PBool bool
  | PInt int
  | PStr string
  | PList "pyval list"
  | PDict "(string \<times> pyval) list"

text \<open>Python truthiness, used by \<open>if up_node and up_node.result\<close>.\<close>

fun truthy :: "pyval \<Rightarrow> bool" where
  "truthy PNone = False"
| "truthy (PBool b) = b"
| "truthy (PInt i) = (i \<noteq> 0)"
| "truthy (PStr s) = (s \<noteq> [])"
| "truthy (PList xs) = (xs \<noteq> [])"
| "truthy (PDict kvs) = (kvs \<noteq> [])"

text \<open>
  A prompt is either literal text or the f-string of \<open>generate_prompt\<close> instantiated
  with role, task id and the list of \<open>{node, role, result}\<close> entries it renders.
\<close>

datatype prompt_text =
    Plain string
  | Generated string string "(string \<times> string \<times> pyval) list"

text \<open>
  \<open>ExecutionNode\<close>. The field \<open>id\<close> is named \<open>nid\<close> (\<open>id\<close> is the identity
  function of HOL).
\<close>

record execution_node =
  nid :: string
  role :: string
  task_id :: string
  state :: node_state
  upstream_nodes :: "string list"
  downstream_nodes :: "string list"
  prompt :: prompt_text
  context_data :: "(string \<times> pyval) list"
  result :: pyval
  error :: "string option"
  execution_time :: duration
  created_at :: timestamp
  started_at :: "timestamp option"
  completed_at :: "timestamp option"

text \<open>The constructor call \<open>ExecutionNode(id, role, task_id, upstream_nodes=ups)\<close>.\<close>

definition ExecutionNode :: "string \<Rightarrow> string \<Rightarrow> string \<Rightarrow> string list \<Rightarrow> execution_node" where
  "ExecutionNode i r t ups =
     \<lparr>nid = i, role = r, task_id = t, state = IDLE,
      upstream_nodes = ups, downstream_nodes = [],
      prompt = Plain [], context_data = [],
      result = PNone, error = None, execution_time = NoTime,
      created_at = Now, started_at = None, completed_at = None\<rparr>"

text \<open>Values of the dictionary that \<open>to_dict\<close> (\<open>dataclasses.asdict\<close>) builds.\<close>

datatype field_value =
    FNone
  | FStr string
  | FStrList "string list"
  | FPrompt prompt_text
  | FDict "(string \<times> pyval) list"
  | FAny pyval
  | FDuration duration
  | FTime timestamp

definition opt_str :: "string option \<Rightarrow> field_value" where
  "opt_str x = (case x of None \<Rightarrow> FNone | Some s \<Rightarrow> FStr s)"

definition opt_time :: "timestamp option \<Rightarrow> field_value" where
  "opt_time x = (case x of None \<Rightarrow> FNone | Some t \<Rightarrow> FTime t)"

definition to_dict :: "execution_node \<Rightarrow> (string \<times> field_value) list" where
  "to_dict n =
     [(''id'', FStr (nid n)),
      (''role'', FStr (role n)),
      (''task_id'', FStr (task_id n)),
      (''state'', FStr (node_state_value (state n))),
      (''upstream_nodes'', FStrList (upstream_nodes n)),
      (''downstream_nodes'', FStrList (downstream_nodes n)),
      (''prompt'', FPrompt (prompt n)),
      (''context_data'', FDict (context_data n)),
      (''result'', FAny (result n)),
      (''error'', opt_str (error n)),
      (''execution_time'', FDuration (execution_time n)),
      (''created_at'', FTime (created_at n)),
      (''started_at'', opt_time (started_at n)),
      (''completed_at'', opt_time (completed_at n))]"

record bridge_request =
  request_id :: string
  source_node :: string
  target_node :: string
  query :: string
  intent :: string
  req_scope :: string
  consent_token :: string
  req_timestamp :: timestamp

record bridge_response =
  resp_request_id :: string
  success :: bool
  data :: "(string \<times> field_value) list option"
  source_namespaces :: "string list"
  processing_time :: duration
  resp_timestamp :: timestamp

text \<open>The dictionary appended by \<open>_log_audit\<close>.\<close>

record audit_entry =
  audit_timestamp :: timestamp
  audit_request_id :: string
  audit_source :: string
  audit_target :: string
  audit_intent :: string
  audit_scope :: string
  decision :: string
  reason :: string
  audit_processing_time :: duration

text \<open>
  The only callback the repository ever registers as a state listener is the
  coordinator's bound method \<open>_on_state_change\<close>; the only prompt generator it ever
  installs is the scheduler's \<open>generate_prompt\<close>.
\<close>

datatype listener = OnStateChange

datatype generator = GeneratePrompt

text \<open>
  One \<open>GlobalBridgeScheduler\<close> with its \<open>StateFlagManager\<close> and
  \<open>InstantTriggerCoordinator\<close>. \<open>state_log\<close> is the sequence of records that
  \<open>update_state\<close> writes with \<open>logger.info\<close>: node id, old state, new state.
\<close>

record scheduler =
  nodes :: "(string \<times> execution_node) list"
  state_listeners :: "(string \<times> listener list) list"
  prompt_generator :: "generator option"
  audit_log :: "audit_entry list"
  state_log :: "(string \<times> node_state \<times> node_state) list"

definition create_scheduler :: scheduler where
  "create_scheduler =
     \<lparr>nodes = [], state_listeners = [], prompt_generator = None,
      audit_log = [], state_log = []\<rparr>"

definition get_node :: "scheduler \<Rightarrow> string \<Rightarrow> execution_node option" where
  "get_node s k = map_of (nodes s) k"

definition put_node :: "string \<Rightarrow> execution_node \<Rightarrow> scheduler \<Rightarrow> scheduler" where
  "put_node k n s = s\<lparr>nodes := AList.update k n (nodes s)\<rparr>"

section \<open>Controlled context bridge\<close>

definition validate_consent_token :: "bridge_request \<Rightarrow> bool" where
  "validate_consent_token req =
     (if consent_token req = [] \<or> length (consent_token req) < 8 then False else True)"

text \<open>The policy dictionary \<open>{"allowed": ..., "reason": ...}\<close> as a pair.\<close>

definition check_bridge_policy :: "bridge_request \<Rightarrow> bool \<times> string" where
  "check_bridge_policy req = (True, [])"

definition filter_by_scope :: "execution_node \<Rightarrow> string \<Rightarrow> (string \<times> field_value) list" where
  "filter_by_scope n scope =
     (if scope = ''public'' then to_dict n
      else if scope = ''shared'' then AList.delete ''prompt'' (to_dict n)
      else [(''id'', FStr (nid n)), (''state'', FStr (node_state_value (state n)))])"

definition log_audit ::
  "bridge_request \<Rightarrow> bridge_response option \<Rightarrow> string \<Rightarrow> string \<Rightarrow> scheduler \<Rightarrow> scheduler" where
  "log_audit req resp dec rsn s =
     s\<lparr>audit_log := audit_log s @
        [\<lparr>audit_timestamp = Now,
          audit_request_id = request_id req,
          audit_source = source_node req,
          audit_target = target_node req,
          audit_intent = intent req,
          audit_scope = req_scope req,
          decision = dec,
          reason = rsn,
          audit_processing_time =
            (case resp of None \<Rightarrow> NoTime | Some r \<Rightarrow> processing_time r)\<rparr>]\<rparr>"

definition failure_response ::
  "bridge_request \<Rightarrow> (string \<times> field_value) list option \<Rightarrow> bridge_response" where
  "failure_response req d =
     \<lparr>resp_request_id = request_id req, success = False, data = d,
      source_namespaces = [], processing_time = NoTime, resp_timestamp = Now\<rparr>"

definition bridge_context :: "bridge_request \<Rightarrow> scheduler \<Rightarrow> bridge_response \<times> scheduler" where
  "bridge_context req s =
     (if \<not> validate_consent_token req then (failure_response req None, s)
      else
        let policy = check_bridge_policy req in
        if \<not> fst policy then
          (failure_response req (Some [(''error'', FStr (snd policy))]),
           log_audit req None ''DENIED'' (snd policy) s)
        else
          (case (get_node s (source_node req), get_node s (target_node req)) of
             (Some src, Some tgt) \<Rightarrow>
               let response =
                 \<lparr>resp_request_id = request_id req, success = True,
                  data = Some (filter_by_scope tgt (req_scope req)),
                  source_namespaces = [target_node req],
                  processing_time = Elapsed, resp_timestamp = Now\<rparr>
               in (response, log_audit req (Some response) ''ALLOWED'' [] s)
           | _ \<Rightarrow> (failure_response req (Some [(''error'', FStr ''Node not found'')]), s)))"

section \<open>State flags and instant triggering\<close>

definition register_node :: "execution_node \<Rightarrow> scheduler \<Rightarrow> scheduler" where
  "register_node n s = put_node (nid n) n s"

definition listeners_of :: "scheduler \<Rightarrow> string \<Rightarrow> listener list" where
  "listeners_of s k = (case map_of (state_listeners s) k of None \<Rightarrow> [] | Some cbs \<Rightarrow> cbs)"

definition add_listener :: "string \<Rightarrow> listener \<Rightarrow> scheduler \<Rightarrow> scheduler" where
  "add_listener k cb s =
     s\<lparr>state_listeners := AList.update k (listeners_of s k @ [cb]) (state_listeners s)\<rparr>"

text \<open>
  \<open>generate_prompt\<close>: the entries of the upstream nodes that are registered and have a
  truthy result, in the order of \<open>upstream_nodes\<close>.
\<close>

definition generate_prompt :: "scheduler \<Rightarrow> execution_node \<Rightarrow> prompt_text" where
  "generate_prompt s node =
     Generated (role node) (task_id node)
       (concat (map (\<lambda>up_id.
          case get_node s up_id of
            None \<Rightarrow> []
          | Some up \<Rightarrow> if truthy (result up) then [(up_id, role up, result up)] else [])
        (upstream_nodes node)))"

text \<open>
  The generator expression \<open>all(nodes.get(up_id) and nodes[up_id].state == COMPLETED
  for up_id in downstream_node.upstream_nodes)\<close>.
\<close>

definition all_deps_completed :: "scheduler \<Rightarrow> execution_node \<Rightarrow> bool" where
  "all_deps_completed s v =
     list_all (\<lambda>up_id. case get_node s up_id of None \<Rightarrow> False | Some up \<Rightarrow> state up = COMPLETED)
       (upstream_nodes v)"

definition stamp :: "node_state \<Rightarrow> execution_node \<Rightarrow> execution_node" where
  "stamp new_state n =
     (if new_state = EXECUTING then n\<lparr>started_at := Some Now\<rparr>
      else if new_state = COMPLETED \<or> new_state = FAILED then n\<lparr>completed_at := Some Now\<rparr>
      else n)"

text \<open>The field writes and the log line of \<open>update_state\<close>, before the listeners run.\<close>

definition write_state :: "string \<Rightarrow> execution_node \<Rightarrow> node_state \<Rightarrow> scheduler \<Rightarrow> scheduler" where
  "write_state node_id n new_state s =
     (put_node node_id (stamp new_state (n\<lparr>state := new_state\<rparr>)) s)
       \<lparr>state_log := state_log s @ [(node_id, state n, new_state)]\<rparr>"

text \<open>\<open>if self.prompt_generator: downstream_node.prompt = self.prompt_generator(downstream_node)\<close>\<close>

definition write_prompt :: "string \<Rightarrow> execution_node \<Rightarrow> scheduler \<Rightarrow> scheduler" where
  "write_prompt k v s =
     (case prompt_generator s of
        None \<Rightarrow> s
      | Some GeneratePrompt \<Rightarrow> put_node k (v\<lparr>prompt := generate_prompt s v\<rparr>) s)"

text \<open>
  \<open>update_state\<close> calls the listeners, a listener called with COMPLETED evaluates the
  downstream nodes, and a downstream node that passes the check is moved to READY
  through \<open>update_state\<close> again. \<open>trigger_each\<close> is the \<open>for downstream_id in ...\<close>
  loop of \<open>_trigger_downstream_nodes\<close>. The recursion ends because the inner
  \<open>update_state\<close> is called with READY, for which the listener returns at once.
\<close>

function update_state :: "string \<Rightarrow> node_state \<Rightarrow> scheduler \<Rightarrow> bool \<times> scheduler"
  and notify_listeners ::
    "listener list \<Rightarrow> string \<Rightarrow> node_state \<Rightarrow> node_state \<Rightarrow> scheduler \<Rightarrow> scheduler"
  and on_state_change :: "string \<Rightarrow> node_state \<Rightarrow> node_state \<Rightarrow> scheduler \<Rightarrow> scheduler"
  and trigger_downstream_nodes :: "string \<Rightarrow> scheduler \<Rightarrow> scheduler"
  and trigger_each :: "string list \<Rightarrow> scheduler \<Rightarrow> scheduler"
where
  "update_state node_id new_state s =
     (case get_node s node_id of
        None \<Rightarrow> (False, s)
      | Some n \<Rightarrow>
          let s1 = write_state node_id n new_state s
          in (True, notify_listeners (listeners_of s1 node_id) node_id (state n) new_state s1))"
| "notify_listeners [] node_id old_state new_state s = s"
| "notify_listeners (OnStateChange # cbs) node_id old_state new_state s =
     notify_listeners cbs node_id old_state new_state
       (on_state_change node_id old_state new_state s)"
| "on_state_change node_id old_state new_state s =
     (if new_state = COMPLETED then trigger_downstream_nodes node_id s else s)"
| "trigger_downstream_nodes completed_node_id s =
     (case get_node s completed_node_id of
        None \<Rightarrow> s
      | Some completed_node \<Rightarrow> trigger_each (downstream_nodes completed_node) s)"
| "trigger_each [] s = s"
| "trigger_each (downstream_id # rest) s =
     trigger_each rest
       (case get_node s downstream_id of
          None \<Rightarrow> s
        | Some downstream_node \<Rightarrow>
            if all_deps_completed s downstream_node
            then snd (update_state downstream_id READY
                        (write_prompt downstream_id downstream_node s))
            else s)"
  by pat_completeness auto
termination
  by (relation "inv_image (less_than <*lex*> less_than <*lex*> less_than)
        (\<lambda>x. case x of
           Inl (Inl (k, st, s)) \<Rightarrow> (if st = COMPLETED then 1 else 0, 4::nat, 0::nat)
         | Inl (Inr (cbs, k, old, st, s)) \<Rightarrow> (if st = COMPLETED then 1 else 0, 3, length cbs)
         | Inr (Inl (k, old, st, s)) \<Rightarrow> (if st = COMPLETED then 1 else 0, 2, 0)
         | Inr (Inr (Inl (k, s))) \<Rightarrow> (0::nat, 7, 0)
         | Inr (Inr (Inr (ds, s))) \<Rightarrow> (0, 6, length ds))") auto

section \<open>Scheduler: registration, dependencies, the execution loop\<close>

definition register_nodes :: "execution_node list \<Rightarrow> scheduler \<Rightarrow> scheduler" where
  "register_nodes ns s =
     fold (\<lambda>n. add_listener (nid n) OnStateChange) ns (fold register_node ns s)"

fun add_downstream_refs :: "string \<Rightarrow> string list \<Rightarrow> scheduler \<Rightarrow> scheduler" where
  "add_downstream_refs node_id [] s = s"
| "add_downstream_refs node_id (up_id # rest) s =
     add_downstream_refs node_id rest
       (case get_node s up_id of
          None \<Rightarrow> s
        | Some up \<Rightarrow>
            if node_id \<in> set (downstream_nodes up) then s
            else put_node up_id (up\<lparr>downstream_nodes := downstream_nodes up @ [node_id]\<rparr>) s)"

text \<open>The argument is the dictionary \<open>{node_id: [upstream_node_ids]}\<close> in its item order.\<close>

fun set_node_dependencies :: "(string \<times> string list) list \<Rightarrow> scheduler \<Rightarrow> scheduler" where
  "set_node_dependencies [] s = s"
| "set_node_dependencies ((node_id, upstream_ids) # rest) s =
     set_node_dependencies rest
       (case get_node s node_id of
          None \<Rightarrow> s
        | Some n \<Rightarrow>
            add_downstream_refs node_id upstream_ids
              (put_node node_id (n\<lparr>upstream_nodes := upstream_ids\<rparr>) s))"

text \<open>
  The execution capability: \<open>Inr r\<close> when \<open>executor(node)\<close> returns \<open>r\<close>, \<open>Inl msg\<close>
  when it raises an exception whose \<open>str\<close> is \<open>msg\<close>.
\<close>

type_synonym executor = "execution_node \<Rightarrow> string + pyval"

text \<open>
  \<open>_execute_node\<close> after the executor has returned: the node is the object stored
  under its id; \<open>seen\<close> is the node as the executor read it.
\<close>

definition execute_node :: "executor \<Rightarrow> execution_node \<Rightarrow> scheduler \<Rightarrow> scheduler" where
  "execute_node ex seen s =
     (case get_node s (nid seen) of
        None \<Rightarrow> s
      | Some n \<Rightarrow>
          (case ex seen of
             Inr r \<Rightarrow>
               snd (update_state (nid seen) COMPLETED
                      (put_node (nid seen) (n\<lparr>result := r, execution_time := Elapsed\<rparr>) s))
           | Inl msg \<Rightarrow>
               snd (update_state (nid seen) FAILED
                      (put_node (nid seen) (n\<lparr>error := Some msg, execution_time := Elapsed\<rparr>) s))))"

definition ready_nodes :: "scheduler \<Rightarrow> execution_node list" where
  "ready_nodes s = filter (\<lambda>node. state node = READY) (map snd (nodes s))"

definition all_done :: "scheduler \<Rightarrow> bool" where
  "all_done s = list_all (\<lambda>n. state n = COMPLETED \<or> state n = FAILED) (map snd (nodes s))"

text \<open>
  One pass of the loop with a non-empty ready list: every ready node is moved to
  EXECUTING and its coroutine created; \<open>asyncio.gather\<close> then runs them. All executors
  are submitted before any of them is awaited to completion, so each executor reads
  its node as it is after the dispatch; the completions are then handled one at a time
  on the event loop, in an order that the thread pool decides: \<open>order\<close> is that
  decision, a rearrangement of the dispatched list.
\<close>

definition run_batch ::
  "executor \<Rightarrow> (execution_node list \<Rightarrow> execution_node list) \<Rightarrow> scheduler \<Rightarrow> scheduler" where
  "run_batch ex order s =
     (let s1 = fold (\<lambda>node s'. snd (update_state (nid node) EXECUTING s')) (ready_nodes s) s;
          dispatched = concat (map (\<lambda>node. case get_node s1 (nid node) of
                                       None \<Rightarrow> [] | Some n \<Rightarrow> [n]) (ready_nodes s))
      in fold (execute_node ex) (order dispatched) s1)"

datatype loop_event = Dispatched "string list" | Slept | Finished

text \<open>
  \<open>for _ in range(max_iterations)\<close>, with the list of what each performed iteration
  did: dispatched the ready nodes, slept 0.1 s and continued, or hit \<open>break\<close>.
\<close>

fun exec_loop ::
  "executor \<Rightarrow> (execution_node list \<Rightarrow> execution_node list) \<Rightarrow> nat \<Rightarrow> scheduler
     \<Rightarrow> scheduler \<times> loop_event list" where
  "exec_loop ex order 0 s = (s, [])"
| "exec_loop ex order (Suc k) s =
     (if ready_nodes s = [] then
        (if all_done s then (s, [Finished])
         else (fst (exec_loop ex order k s), Slept # snd (exec_loop ex order k s)))
      else
        (fst (exec_loop ex order k (run_batch ex order s)),
         Dispatched (map nid (ready_nodes s)) # snd (exec_loop ex order k (run_batch ex order s))))"

record node_status =
  status_state :: string
  status_result :: pyval
  status_error :: "string option"
  status_execution_time :: duration

definition collect_results :: "scheduler \<Rightarrow> (string \<times> node_status) list" where
  "collect_results s =
     fold (\<lambda>node. AList.update (nid node)
             \<lparr>status_state = node_state_value (state node), status_result = result node,
              status_error = error node, status_execution_time = execution_time node\<rparr>)
       (map snd (nodes s)) []"

definition seed_roots :: "execution_node list \<Rightarrow> scheduler \<Rightarrow> scheduler" where
  "seed_roots dag_nodes s =
     fold (\<lambda>node s'. if upstream_nodes node = [] then snd (update_state (nid node) READY s') else s')
       dag_nodes s"

text \<open>
  \<open>execute_dag\<close> returns the status dictionary; the model also returns the scheduler it
  leaves behind and the list of loop iterations.
\<close>

definition execute_dag ::
  "executor \<Rightarrow> (execution_node list \<Rightarrow> execution_node list) \<Rightarrow> execution_node list \<Rightarrow> scheduler
     \<Rightarrow> (string \<times> node_status) list \<times> scheduler \<times> loop_event list" where
  "execute_dag ex order dag_nodes s =
     (let s1 = register_nodes dag_nodes s;
          s2 = s1\<lparr>prompt_generator := Some GeneratePrompt\<rparr>;
          s3 = seed_roots dag_nodes s2;
          run = exec_loop ex order (length dag_nodes * 2) s3
      in (collect_results (fst run), fst run, snd run))"

section \<open>Task DAG of the decomposer\<close>

text \<open>
  Embedding of \<open>TaskDAG\<close> in \<^verbatim>\<open>core/dag_scheduler/task_decomposer.py\<close>. The enum
  members that share a name with a member of \<open>NodeState\<close> carry the prefix
  \<open>TASK_\<close>; the fields \<open>id\<close>, \<open>state\<close> and \<open>context_data\<close> of \<open>TaskNode\<close> are named
  \<open>tid\<close>, \<open>task_state\<close> and \<open>task_context_data\<close>.
\<close>

datatype task_complexity = TRIVIAL | SIMPLE | MODERATE | COMPLEX | EXPERT

datatype task_type =
  ANALYSIS | DEVELOPMENT | DESIGN | DOCUMENTATION | TESTING | RESEARCH | INTEGRATION | OPTIMIZATION

datatype task_state =
  PENDING | TASK_READY | RUNNING | TASK_COMPLETED | TASK_FAILED | TASK_BLOCKED

record task_node =
  tid :: string
  title :: string
  description :: string
  task_type :: task_type
  complexity :: task_complexity
  estimated_time_minutes :: int
  required_role :: string
  dependencies :: "string list"
  parallel_group :: "string option"
  priority :: int
  skills_required :: "string list"
  context_requirements :: "(string \<times> pyval) list"
  deliverables :: "string list"
  task_state :: task_state
  context_level :: string
  task_context_data :: "(string \<times> pyval) list"

text \<open>
  The methods below read and write only the \<open>nodes\<close> dictionary of a \<open>TaskDAG\<close>, so
  the DAG is that dictionary.
\<close>

type_synonym task_dag = "(string \<times> task_node) list"

text \<open>\<open>title in node.title\<close> on strings is the test for a contiguous substring.\<close>

definition find_node_by_title :: "task_dag \<Rightarrow> string \<Rightarrow> task_node option" where
  "find_node_by_title dag t = find (\<lambda>node. sublist t (title node)) (map snd dag)"

definition get_ready_tasks :: "task_dag \<Rightarrow> task_node list" where
  "get_ready_tasks dag =
     filter (\<lambda>node. task_state node = PENDING \<and>
               list_all (\<lambda>dep. case find_node_by_title dag dep of
                                  None \<Rightarrow> True
                                | Some d \<Rightarrow> task_state d = TASK_COMPLETED)
                 (dependencies node))
       (map snd dag)"




section \<open>Hierarchical context manager\<close>

text \<open>
  Embedding of \<^verbatim>\<open>core/context_manager/hierarchical_context.py\<close>. Here the clock
  matters (record ids and expiry), so an instant is the number of microseconds since
  the epoch and is passed to every operation that reads \<open>datetime.now()\<close>.
\<close>

datatype ContextLevel = L1_SYSTEM | L2_PROJECT | L3_NODE | L4_SESSION

fun level_value :: "ContextLevel \<Rightarrow> string" where
  "level_value L1_SYSTEM = ''L1''"
| "level_value L2_PROJECT = ''L2''"
| "level_value L3_NODE = ''L3''"
| "level_value L4_SESSION = ''L4''"

datatype ContextScope = PRIVATE | SHARED | PUBLIC

type_synonym instant = int

text \<open>
  The record id \<open>f"{level.value}_{content_hash}_{now:%Y%m%d%H%M%S}"\<close> as its three
  parts. The 12 hex digits of the SHA-256 of the content are represented by the content
  itself (no two contents collide in the model); the time stamp has the resolution of
  one second.
\<close>

type_synonym record_id = "string \<times> string \<times> int"

definition make_record_id :: "ContextLevel \<Rightarrow> string \<Rightarrow> instant \<Rightarrow> record_id" where
  "make_record_id lvl content_text now = (level_value lvl, content_text, now div 1000000)"

record context_record =
  rid :: record_id
  level :: ContextLevel
  scope :: ContextScope
  content :: string
  metadata :: "(string \<times> pyval) list"
  project_id :: "string option"
  node_id :: "string option"
  session_id :: "string option"
  rec_created_at :: instant
  ttl_minutes :: "int option"
  last_accessed :: "instant option"
  isolated :: bool

definition is_expired :: "instant \<Rightarrow> context_record \<Rightarrow> bool" where
  "is_expired now r =
     (case ttl_minutes r of
        None \<Rightarrow> False
      | Some m \<Rightarrow> now > rec_created_at r + m * 60 * 1000000)"

fun TTL_CONFIG :: "ContextLevel \<Rightarrow> int option" where
  "TTL_CONFIG L1_SYSTEM = None"
| "TTL_CONFIG L2_PROJECT = Some 120"
| "TTL_CONFIG L3_NODE = Some 30"
| "TTL_CONFIG L4_SESSION = Some 10"

text \<open>
  The manager: the \<open>records\<close> dictionary of each of the four layers and the two
  indexes. A Python set of record ids is a duplicate-free list. No database path is
  configured.
\<close>

record context_manager =
  layers :: "ContextLevel \<Rightarrow> (record_id \<times> context_record) list"
  project_contexts :: "(string \<times> record_id list) list"
  node_contexts :: "(string \<times> record_id list) list"

definition new_context_manager :: context_manager where
  "new_context_manager = \<lparr>layers = (\<lambda>_. []), project_contexts = [], node_contexts = []\<rparr>"

text \<open>\<open>ContextLayer.add_record\<close> fills in the layer's TTL on the record object it stores.\<close>

definition with_layer_ttl :: "ContextLevel \<Rightarrow> context_record \<Rightarrow> context_record" where
  "with_layer_ttl lvl r = (if ttl_minutes r = None then r\<lparr>ttl_minutes := TTL_CONFIG lvl\<rparr> else r)"

definition add_record :: "ContextLevel \<Rightarrow> context_record \<Rightarrow> context_manager \<Rightarrow> context_manager" where
  "add_record lvl r m =
     m\<lparr>layers := (layers m)(lvl := AList.update (rid r) (with_layer_ttl lvl r) (layers m lvl))\<rparr>"

definition index_add ::
  "string \<Rightarrow> record_id \<Rightarrow> (string \<times> record_id list) list \<Rightarrow> (string \<times> record_id list) list" where
  "index_add k i idx =
     (let old = (case map_of idx k of None \<Rightarrow> [] | Some is \<Rightarrow> is)
      in AList.update k (if i \<in> set old then old else old @ [i]) idx)"

text \<open>\<open>if project_id:\<close> and \<open>if node_id:\<close> are false for \<open>None\<close> and for the empty string.\<close>

definition nonempty_id :: "string option \<Rightarrow> bool" where
  "nonempty_id x = (case x of None \<Rightarrow> False | Some v \<Rightarrow> v \<noteq> [])"

definition create_context ::
  "instant \<Rightarrow> ContextLevel \<Rightarrow> string \<Rightarrow> (string \<times> pyval) list \<Rightarrow> ContextScope
     \<Rightarrow> string option \<Rightarrow> string option \<Rightarrow> string option \<Rightarrow> bool
     \<Rightarrow> context_manager \<Rightarrow> context_record \<times> context_manager" where
  "create_context now lvl content_text meta scp proj nd sess isol m =
     (let record_id = make_record_id lvl content_text now;
          r = \<lparr>rid = record_id, level = lvl, scope = scp, content = content_text,
               metadata = meta, project_id = proj, node_id = nd, session_id = sess,
               rec_created_at = now, ttl_minutes = None, last_accessed = None,
               isolated = isol\<rparr>;
          m1 = add_record lvl r m;
          m2 = (if nonempty_id proj
                then m1\<lparr>project_contexts := index_add (the proj) record_id (project_contexts m1)\<rparr>
                else m1);
          m3 = (if nonempty_id nd
                then m2\<lparr>node_contexts := index_add (the nd) record_id (node_contexts m2)\<rparr>
                else m2)
      in (with_layer_ttl lvl r, m3))"

text \<open>The four lists of \<open>get_visible_context\<close>, as a function of the level.\<close>

definition get_visible_context ::
  "instant \<Rightarrow> string \<Rightarrow> string option \<Rightarrow> string option \<Rightarrow> context_manager
     \<Rightarrow> ContextLevel \<Rightarrow> context_record list" where
  "get_visible_context now node proj sess m lvl =
     (case lvl of
        L1_SYSTEM \<Rightarrow> filter (\<lambda>r. \<not> is_expired now r) (map snd (layers m L1_SYSTEM))
      | L2_PROJECT \<Rightarrow>
          (if nonempty_id proj
           then filter (\<lambda>r. \<not> is_expired now r \<and> project_id r = proj
                            \<and> (\<not> isolated r \<or> scope r \<noteq> PRIVATE))
                  (map snd (layers m L2_PROJECT))
           else [])
      | L3_NODE \<Rightarrow>
          filter (\<lambda>r. \<not> is_expired now r \<and> node_id r = Some node)
            (map snd (layers m L3_NODE))
      | L4_SESSION \<Rightarrow>
          (if nonempty_id sess
           then filter (\<lambda>r. \<not> is_expired now r \<and> session_id r = sess)
                  (map snd (layers m L4_SESSION))
           else []))"

text \<open>\<open>ContextLayer.cleanup_expired\<close> on every layer.\<close>

definition cleanup_expired :: "instant \<Rightarrow> context_manager \<Rightarrow> context_manager" where
  "cleanup_expired now m =
     m\<lparr>layers := (\<lambda>lvl. filter (\<lambda>kv. \<not> is_expired now (snd kv)) (layers m lvl))\<rparr>"

section \<open>Scenarios\<close>

text \<open>Two registered nodes and a shared-scope request with a five-character token.\<close>

definition two_node_scheduler :: scheduler where
  "two_node_scheduler =
     register_nodes
       [ExecutionNode ''node_1'' ''architect'' ''task_001'' [],
        ExecutionNode ''node_2'' ''developer'' ''task_002'' [''node_1'']]
       create_scheduler"

definition short_token_request :: bridge_request where
  "short_token_request =
     \<lparr>request_id = ''req_1'', source_node = ''node_1'', target_node = ''node_2'',
      query = ''result'', intent = ''review'', req_scope = ''shared'',
      consent_token = ''abcde'', req_timestamp = Now\<rparr>"

text \<open>Completion orders: as dispatched, or the other way round.\<close>

definition in_dispatch_order :: "execution_node list \<Rightarrow> execution_node list" where
  "in_dispatch_order xs = xs"

definition in_reverse_order :: "execution_node list \<Rightarrow> execution_node list" where
  "in_reverse_order xs = rev xs"

text \<open>
  Failure isolation: the graph with edges A to B, A to C and B to D, built as the
  module's own example does (register, set the dependencies, execute), with an
  executor that raises on B.
\<close>

definition fail_B :: executor where
  "fail_B n = (if nid n = ''B'' then Inl ''boom'' else Inr (PStr ''ok''))"

definition isolation_scheduler :: scheduler where
  "isolation_scheduler =
     set_node_dependencies [(''B'', [''A'']), (''C'', [''A'']), (''D'', [''B''])]
       (register_nodes
          [ExecutionNode ''A'' ''architect'' ''t1'' [],
           ExecutionNode ''B'' ''developer'' ''t2'' [''A''],
           ExecutionNode ''C'' ''developer'' ''t3'' [''A''],
           ExecutionNode ''D'' ''quality'' ''t4'' [''B'']]
          create_scheduler)"

definition isolation_run :: "(string \<times> node_status) list \<times> scheduler \<times> loop_event list" where
  "isolation_run =
     execute_dag fail_B in_dispatch_order (map snd (nodes isolation_scheduler)) isolation_scheduler"

text \<open>One registered node whose only upstream reference names no registered node.\<close>

definition dangling_scheduler :: scheduler where
  "dangling_scheduler =
     register_nodes [ExecutionNode ''X'' ''developer'' ''t1'' [''missing'']] create_scheduler"

text \<open>Three registered nodes without any edge, and two dependency maps for D.\<close>

definition edgeless_scheduler :: scheduler where
  "edgeless_scheduler =
     register_nodes
       [ExecutionNode ''B'' ''developer'' ''t2'' [],
        ExecutionNode ''C'' ''developer'' ''t3'' [],
        ExecutionNode ''D'' ''quality'' ''t4'' []]
       create_scheduler"

definition rewired_scheduler :: scheduler where
  "rewired_scheduler =
     set_node_dependencies [(''D'', [''C''])]
       (set_node_dependencies [(''D'', [''B''])] edgeless_scheduler)"

section \<open>Predicates on the dependency lists\<close>

text \<open>The downstream list of a node as a set; empty for an unregistered id.\<close>

definition dset :: "scheduler \<Rightarrow> string \<Rightarrow> string set" where
  "dset s k = (case get_node s k of None \<Rightarrow> {} | Some n \<Rightarrow> set (downstream_nodes n))"

text \<open>Every upstream edge between registered nodes has its downstream entry.\<close>

definition downstream_covers :: "scheduler \<Rightarrow> bool" where
  "downstream_covers s =
     (\<forall>u v nv. get_node s v = Some nv \<and> u \<in> set (upstream_nodes nv) \<and> get_node s u \<noteq> None
        \<longrightarrow> v \<in> dset s u)"

text \<open>Every downstream entry naming a registered node has its upstream edge.\<close>

definition downstream_sound :: "scheduler \<Rightarrow> bool" where
  "downstream_sound s =
     (\<forall>u v nv. get_node s v = Some nv \<and> v \<in> dset s u \<longrightarrow> u \<in> set (upstream_nodes nv))"

definition unreferenced :: "string set \<Rightarrow> scheduler \<Rightarrow> bool" where
  "unreferenced ks s = (\<forall>v u. v \<in> ks \<longrightarrow> v \<notin> dset s u)"

text \<open>The dependency map \<open>deps\<close> is already in force.\<close>

definition applied :: "(string \<times> string list) list \<Rightarrow> scheduler \<Rightarrow> bool" where
  "applied deps s =
     (\<forall>v ups n. (v, ups) \<in> set deps \<and> get_node s v = Some n \<longrightarrow>
        upstream_nodes n = ups \<and> (\<forall>u \<in> set ups. get_node s u \<noteq> None \<longrightarrow> v \<in> dset s u))"

text \<open>
  The state before the first call: no downstream entry anywhere, and every node that
  already has upstream ids is a key of the dependency map.
\<close>

definition first_call :: "(string \<times> string list) list \<Rightarrow> scheduler \<Rightarrow> bool" where
  "first_call deps s =
     (distinct (map fst deps)
      \<and> (\<forall>k n. get_node s k = Some n \<longrightarrow> downstream_nodes n = [])
      \<and> (\<forall>k n. get_node s k = Some n \<and> upstream_nodes n \<noteq> [] \<longrightarrow> k \<in> fst ` set deps))"

text \<open>The edge relation between registered nodes is an exact inverse.\<close>

definition exact_inverse :: "scheduler \<Rightarrow> bool" where
  "exact_inverse s =
     (\<forall>u v nu nv. get_node s u = Some nu \<and> get_node s v = Some nv \<longrightarrow>
        (u \<in> set (upstream_nodes nv)) = (v \<in> set (downstream_nodes nu)))"

section \<open>Scenarios for the task DAG and the context manager\<close>



text \<open>
  Two node-level records with the same content, created for two nodes within the same
  second.
\<close>

definition team_prompt :: string where
  "team_prompt = ''You are one agent of the team.''"

definition manager_a :: context_manager where
  "manager_a =
     snd (create_context 1700000000000000 L3_NODE team_prompt [] PRIVATE None (Some ''node_a'')
            None True new_context_manager)"

definition manager_ab :: context_manager where
  "manager_ab =
     snd (create_context 1700000000400000 L3_NODE team_prompt [] PRIVATE None (Some ''node_b'')
            None True manager_a)"

section \<open>Notions used to state the scheduling properties\<close>


text \<open>The state of the node registered under an id, if any.\<close>

definition state_of :: "scheduler \<Rightarrow> string \<Rightarrow> node_state option" where
  "state_of s k = map_option state (get_node s k)"


text \<open>How many transitions of node \<open>v\<close> to READY the state log records.\<close>

definition ready_transitions :: "string \<Rightarrow> scheduler \<Rightarrow> nat" where
  "ready_transitions v s =
     length (filter (\<lambda>e. fst e = v \<and> snd (snd e) = READY) (state_log s))"


text \<open>
  The part of a scheduler that no state update changes: for every key the id and the edge
  lists of its record, in dictionary order, and the listeners.
\<close>

definition static_of ::
  "scheduler \<Rightarrow> (string \<times> string \<times> string list \<times> string list) list
      \<times> (string \<times> listener list) list" where
  "static_of s =
     (map (\<lambda>kn. (fst kn, nid (snd kn), upstream_nodes (snd kn), downstream_nodes (snd kn))) (nodes s),
      state_listeners s)"








text \<open>
  The diamond of the module's own example, built as the example builds it, with its
  executor that always returns, completions taken in reverse dispatch order.
\<close>

definition always_ok :: executor where
  "always_ok n = Inr (PStr (''Result from '' @ role n))"

definition diamond_scheduler :: scheduler where
  "diamond_scheduler =
     set_node_dependencies
       [(''node_2'', [''node_1'']), (''node_3'', [''node_1'']), (''node_4'', [''node_2'', ''node_3''])]
       (register_nodes
          [ExecutionNode ''node_1'' ''architect'' ''task_001'' [],
           ExecutionNode ''node_2'' ''developer'' ''task_002'' [''node_1''],
           ExecutionNode ''node_3'' ''developer'' ''task_003'' [''node_1''],
           ExecutionNode ''node_4'' ''quality'' ''task_004'' [''node_2'', ''node_3'']]
          create_scheduler)"


definition diamond_run :: "(string \<times> node_status) list \<times> scheduler \<times> loop_event list" where
  "diamond_run =
     execute_dag always_ok in_reverse_order (map snd (nodes diamond_scheduler)) diamond_scheduler"

text \<open>
  The states a run of \<open>execute_dag\<close> passes through: the state after registration
  and seeding of the roots, the state after the dispatch of a \<open>ready\<close> node, and the
  state after the completion or failure of an \<open>executing\<close> node.
\<close>

definition seeded :: "execution_node list \<Rightarrow> scheduler \<Rightarrow> scheduler" where
  "seeded dag s = seed_roots dag ((register_nodes dag s)\<lparr>prompt_generator := Some GeneratePrompt\<rparr>)"

inductive_set reachable :: "executor \<Rightarrow> execution_node list \<Rightarrow> scheduler \<Rightarrow> scheduler set"
  for ex :: executor and dag :: "execution_node list" and s :: scheduler
where
  seeded:
    "seed_roots dag ((register_nodes dag s)\<lparr>prompt_generator := Some GeneratePrompt\<rparr>)
       \<in> reachable ex dag s"
| dispatched:
    "t \<in> reachable ex dag s \<Longrightarrow> get_node t k = Some n \<Longrightarrow> state n = READY \<Longrightarrow>
     snd (update_state k EXECUTING t) \<in> reachable ex dag s"
| finished:
    "t \<in> reachable ex dag s \<Longrightarrow> get_node t (nid seen) = Some n \<Longrightarrow> state n = EXECUTING \<Longrightarrow>
     execute_node ex seen t \<in> reachable ex dag s"



text \<open>
  The same diamond with the downstream lists given to the constructor, run on a fresh
  scheduler: \<open>execute_dag\<close> is then the only call that registers the nodes.
\<close>

definition prewired_diamond :: "execution_node list" where
  "prewired_diamond =
     [(ExecutionNode ''node_1'' ''architect'' ''task_001'' [])
        \<lparr>downstream_nodes := [''node_2'', ''node_3'']\<rparr>,
      (ExecutionNode ''node_2'' ''developer'' ''task_002'' [''node_1''])
        \<lparr>downstream_nodes := [''node_4'']\<rparr>,
      (ExecutionNode ''node_3'' ''developer'' ''task_003'' [''node_1''])
        \<lparr>downstream_nodes := [''node_4'']\<rparr>,
      ExecutionNode ''node_4'' ''quality'' ''task_004'' [''node_2'', ''node_3'']]"

definition prewired_run :: "(string \<times> node_status) list \<times> scheduler \<times> loop_event list" where
  "prewired_run = execute_dag always_ok in_reverse_order prewired_diamond create_scheduler"





section \<open>Properties of the context bridge\<close>

lemma get_node_two_node_scheduler:
  "get_node two_node_scheduler ''node_1''
     = Some (ExecutionNode ''node_1'' ''architect'' ''task_001'' [])"
  "get_node two_node_scheduler ''node_2''
     = Some (ExecutionNode ''node_2'' ''developer'' ''task_002'' [''node_1''])"
  by (simp_all add: two_node_scheduler_def register_nodes_def register_node_def put_node_def
        add_listener_def listeners_of_def get_node_def create_scheduler_def ExecutionNode_def)

text \<open>
  The audit log grows by one entry exactly when the token is valid and both nodes are
  registered (the default policy allows every request); otherwise it is unchanged.
\<close>

lemma bridge_context_audit_length:
  "length (audit_log (snd (bridge_context req s))) =
     length (audit_log s) +
       (if validate_consent_token req \<and> get_node s (source_node req) \<noteq> None
           \<and> get_node s (target_node req) \<noteq> None then 1 else 0)"
  by (auto simp: bridge_context_def check_bridge_policy_def log_audit_def Let_def
           split: option.splits)

text \<open>
  C3 (code defect). A request with the five-character token \<open>abcde\<close> between the two
  registered nodes, scope shared, is answered with \<open>success = False\<close> and \<open>data = None\<close>,
  but the scheduler is returned as it was: the audit log is still empty, no DENIED
  entry has been appended.
\<close>

theorem bridge_short_token_no_audit:
  "success (fst (bridge_context short_token_request two_node_scheduler)) = False
   \<and> data (fst (bridge_context short_token_request two_node_scheduler)) = None
   \<and> get_node two_node_scheduler (source_node short_token_request) \<noteq> None
   \<and> get_node two_node_scheduler (target_node short_token_request) \<noteq> None
   \<and> snd (bridge_context short_token_request two_node_scheduler) = two_node_scheduler
   \<and> audit_log (snd (bridge_context short_token_request two_node_scheduler)) = []"
proof -
  have invalid: "\<not> validate_consent_token short_token_request"
    by (simp add: validate_consent_token_def short_token_request_def)
  have result: "bridge_context short_token_request two_node_scheduler
                  = (failure_response short_token_request None, two_node_scheduler)"
    using invalid by (simp add: bridge_context_def)
  have empty: "audit_log two_node_scheduler = []"
    by (simp add: two_node_scheduler_def register_nodes_def register_node_def put_node_def
          add_listener_def create_scheduler_def)
  have registered:
    "get_node two_node_scheduler (source_node short_token_request) \<noteq> None"
    "get_node two_node_scheduler (target_node short_token_request) \<noteq> None"
    by (simp_all add: short_token_request_def get_node_two_node_scheduler)
  show ?thesis
    using registered by (simp add: result failure_response_def empty)
qed


section \<open>Basic facts about the node store and state updates\<close>

declare update_state.simps [simp del] on_state_change.simps [simp del]
  trigger_downstream_nodes.simps [simp del]

lemma get_node_put_node: "get_node (put_node k n s) v = (if v = k then Some n else get_node s v)"
  by (simp add: get_node_def put_node_def update_conv')

lemma put_node_same: "get_node s k = Some n \<Longrightarrow> put_node k n s = s"
  by (simp add: put_node_def get_node_def update_triv)





section \<open>Failure of a node\<close>




section \<open>A stalled run\<close>

text \<open>
  C6, as the code has it. With no node READY and some node neither COMPLETED nor
  FAILED, an iteration sleeps and continues with the scheduler unchanged, so the loop
  uses up whatever is left of its iteration budget and hands back the scheduler as it
  is; \<open>execute_dag\<close> then builds the ordinary status map from it.
\<close>

theorem stalled_loop_sleeps_until_budget:
  "ready_nodes s = [] \<Longrightarrow> \<not> all_done s \<Longrightarrow> exec_loop ex order k s = (s, replicate k Slept)"
  by (induction k) simp_all

theorem stalled_loop_sleeps_until_budget_witness:
  "ready_nodes dangling_scheduler = [] \<and> \<not> all_done dangling_scheduler
   \<and> exec_loop fail_B in_dispatch_order 2 dangling_scheduler = (dangling_scheduler, [Slept, Slept])"
proof -
  have r: "ready_nodes dangling_scheduler = []" by code_simp
  have d: "\<not> all_done dangling_scheduler" by code_simp
  have "replicate 2 Slept = [Slept, Slept]" by (simp add: numeral_2_eq_2)
  with stalled_loop_sleeps_until_budget[OF r d, of fail_B in_dispatch_order 2] r d
  show ?thesis by simp
qed

text \<open>
  C6 as stated fails: after B has failed, no node is READY and D is not terminal, yet
  the loop neither stops nor reports a failure; it sleeps through the six iterations
  that are left and the run returns its status map as after any other run.
\<close>

theorem stalled_run_returns_normally:
  "snd (snd isolation_run) =
     [Dispatched [''A''], Dispatched [''B'', ''C''], Slept, Slept, Slept, Slept, Slept, Slept]
   \<and> map fst (fst isolation_run) = [''A'', ''B'', ''C'', ''D'']
   \<and> ready_nodes (fst (snd isolation_run)) = []
   \<and> all_done (fst (snd isolation_run)) = False"
  by code_simp

section \<open>Setting dependencies\<close>

lemma add_downstream_refs_registered:
  "(get_node (add_downstream_refs v ups s) k = None) = (get_node s k = None)"
  by (induction ups arbitrary: s) (auto simp: get_node_put_node split: option.splits)

lemma add_downstream_refs_upstream:
  "map_option upstream_nodes (get_node (add_downstream_refs v ups s) k)
     = map_option upstream_nodes (get_node s k)"
  by (induction ups arbitrary: s) (auto simp: get_node_put_node split: option.splits)

lemma add_downstream_refs_dset:
  "dset (add_downstream_refs v ups s) k =
     dset s k \<union> (if k \<in> set ups \<and> get_node s k \<noteq> None then {v} else {})"
proof (induction ups arbitrary: s)
  case Nil
  then show ?case by simp
next
  case (Cons a ups)
  let ?s1 = "(case get_node s a of None \<Rightarrow> s | Some up \<Rightarrow>
            if v \<in> set (downstream_nodes up) then s
            else put_node a (up\<lparr>downstream_nodes := downstream_nodes up @ [v]\<rparr>) s)"
  have reg: "(get_node ?s1 k = None) = (get_node s k = None)"
    by (auto simp: get_node_put_node split: option.splits)
  have d1: "dset ?s1 k = dset s k \<union> (if k = a \<and> get_node s k \<noteq> None then {v} else {})"
    by (auto simp: dset_def get_node_put_node split: option.splits)
  have "dset (add_downstream_refs v (a # ups) s) k = dset (add_downstream_refs v ups ?s1) k"
    by simp
  also have "\<dots> = dset ?s1 k \<union> (if k \<in> set ups \<and> get_node ?s1 k \<noteq> None then {v} else {})"
    by (rule Cons.IH)
  also have "\<dots> = dset s k \<union> (if k \<in> set (a # ups) \<and> get_node s k \<noteq> None then {v} else {})"
    unfolding d1 reg by auto
  finally show ?case .
qed

lemma dset_put_upstream:
  "get_node s v = Some n \<Longrightarrow> dset (put_node v (n\<lparr>upstream_nodes := ups\<rparr>) s) k = dset s k"
  by (auto simp: dset_def get_node_put_node)

text \<open>One item of the dependency map, for a registered key.\<close>

lemma set_deps_step_dset:
  assumes "get_node s v = Some n"
  shows "dset (add_downstream_refs v ups (put_node v (n\<lparr>upstream_nodes := ups\<rparr>) s)) k =
           dset s k \<union> (if k \<in> set ups \<and> get_node s k \<noteq> None then {v} else {})"
proof -
  have "(get_node (put_node v (n\<lparr>upstream_nodes := ups\<rparr>) s) k \<noteq> None) = (get_node s k \<noteq> None)"
    using assms by (simp add: get_node_put_node)
  then show ?thesis
    using assms by (simp add: add_downstream_refs_dset dset_put_upstream)
qed

lemma set_deps_step_upstream:
  assumes "get_node s v = Some n"
  shows "map_option upstream_nodes
           (get_node (add_downstream_refs v ups (put_node v (n\<lparr>upstream_nodes := ups\<rparr>) s)) k) =
         (if k = v then Some ups else map_option upstream_nodes (get_node s k))"
  by (simp add: add_downstream_refs_upstream get_node_put_node)

lemma set_deps_step_covers:
  assumes "downstream_covers s" "get_node s v = Some n"
  shows "downstream_covers (add_downstream_refs v ups (put_node v (n\<lparr>upstream_nodes := ups\<rparr>) s))"
  unfolding downstream_covers_def
proof (intro allI impI, elim conjE)
  let ?s1 = "put_node v (n\<lparr>upstream_nodes := ups\<rparr>) s"
  let ?s2 = "add_downstream_refs v ups ?s1"
  fix u w nw
  assume w: "get_node ?s2 w = Some nw" and e: "u \<in> set (upstream_nodes nw)"
    and u: "get_node ?s2 u \<noteq> None"
  have upw: "map_option upstream_nodes (get_node ?s1 w) = Some (upstream_nodes nw)"
    using add_downstream_refs_upstream[of v ups ?s1 w] w by simp
  have u1: "get_node ?s1 u \<noteq> None"
    using u by (simp add: add_downstream_refs_registered)
  have d2: "dset ?s2 u = dset ?s1 u \<union> (if u \<in> set ups then {v} else {})"
    using u1 by (simp add: add_downstream_refs_dset)
  show "w \<in> dset ?s2 u"
  proof (cases "w = v")
    case True
    with upw have "upstream_nodes nw = ups" by (simp add: get_node_put_node)
    with e True d2 show ?thesis by simp
  next
    case False
    with upw obtain nw0 where nw0: "get_node s w = Some nw0" "upstream_nodes nw0 = upstream_nodes nw"
      by (auto simp: get_node_put_node)
    have u0: "get_node s u \<noteq> None"
      using u1 assms(2) by (auto simp: get_node_put_node split: if_splits)
    have "dset ?s1 u = dset s u"
      using assms(2) by (auto simp: dset_def get_node_put_node)
    moreover have "w \<in> dset s u"
      using assms(1) nw0 e u0 unfolding downstream_covers_def by metis
    ultimately show ?thesis using d2 by simp
  qed
qed

lemma set_node_dependencies_covers:
  "downstream_covers s \<Longrightarrow> downstream_covers (set_node_dependencies deps s)"
proof (induction deps arbitrary: s)
  case Nil
  then show ?case by simp
next
  case (Cons d deps)
  obtain v ups where d: "d = (v, ups)" by (cases d)
  show ?case
  proof (cases "get_node s v")
    case None
    with Cons d show ?thesis by simp
  next
    case (Some n)
    with Cons d set_deps_step_covers[OF Cons.prems Some] show ?thesis by simp
  qed
qed

lemma add_downstream_refs_noop:
  "(\<forall>u \<in> set ups. get_node s u \<noteq> None \<longrightarrow> v \<in> dset s u) \<Longrightarrow> add_downstream_refs v ups s = s"
  by (induction ups arbitrary: s) (auto simp: dset_def split: option.splits)

lemma set_node_dependencies_noop:
  "applied deps s \<Longrightarrow> set_node_dependencies deps s = s"
proof (induction deps arbitrary: s)
  case Nil
  then show ?case by simp
next
  case (Cons d deps)
  obtain v ups where d: "d = (v, ups)" by (cases d)
  have rest: "applied deps s"
    unfolding applied_def
  proof (intro allI impI, elim conjE)
    fix w wups n
    assume "(w, wups) \<in> set deps" and g: "get_node s w = Some n"
    then have "(w, wups) \<in> set (d # deps)" by simp
    with Cons.prems g
    show "upstream_nodes n = wups \<and> (\<forall>u\<in>set wups. get_node s u \<noteq> None \<longrightarrow> w \<in> dset s u)"
      unfolding applied_def by blast
  qed
  show ?case
  proof (cases "get_node s v")
    case None
    with Cons.IH[OF rest] d show ?thesis by simp
  next
    case (Some n)
    have "(v, ups) \<in> set (d # deps)" using d by simp
    with Cons.prems Some
    have "upstream_nodes n = ups \<and> (\<forall>u \<in> set ups. get_node s u \<noteq> None \<longrightarrow> v \<in> dset s u)"
      unfolding applied_def by blast
    then have up: "upstream_nodes n = ups"
      and dn: "\<forall>u \<in> set ups. get_node s u \<noteq> None \<longrightarrow> v \<in> dset s u"
      by simp_all
    have "n\<lparr>upstream_nodes := ups\<rparr> = n" using up by simp
    then have "put_node v (n\<lparr>upstream_nodes := ups\<rparr>) s = s" using Some by (simp add: put_node_same)
    with add_downstream_refs_noop[OF dn] Cons.IH[OF rest] Some d show ?thesis by simp
  qed
qed

lemma set_node_dependencies_registered:
  "(get_node (set_node_dependencies deps s) k = None) = (get_node s k = None)"
proof (induction deps arbitrary: s)
  case Nil
  then show ?case by simp
next
  case (Cons d deps)
  obtain v ups where d: "d = (v, ups)" by (cases d)
  show ?case
    using Cons.IH d
    by (cases "get_node s v") (auto simp: add_downstream_refs_registered get_node_put_node)
qed

lemma set_node_dependencies_dset_mono:
  "dset s k \<subseteq> dset (set_node_dependencies deps s) k"
proof (induction deps arbitrary: s)
  case Nil
  then show ?case by simp
next
  case (Cons d deps)
  obtain v ups where d: "d = (v, ups)" by (cases d)
  show ?case
  proof (cases "get_node s v")
    case None
    with Cons d show ?thesis by simp
  next
    case (Some n)
    let ?s1 = "add_downstream_refs v ups (put_node v (n\<lparr>upstream_nodes := ups\<rparr>) s)"
    have "dset s k \<subseteq> dset ?s1 k" by (auto simp: set_deps_step_dset[OF Some])
    also have "\<dots> \<subseteq> dset (set_node_dependencies deps ?s1) k"
      by (rule Cons.IH)
    finally show ?thesis using Some d by simp
  qed
qed

lemma set_node_dependencies_upstream_other:
  "v \<notin> fst ` set deps \<Longrightarrow>
   map_option upstream_nodes (get_node (set_node_dependencies deps s) v)
     = map_option upstream_nodes (get_node s v)"
proof (induction deps arbitrary: s)
  case Nil
  then show ?case by simp
next
  case (Cons d deps)
  obtain w ups where d: "d = (w, ups)" by (cases d)
  with Cons.prems have ne: "v \<noteq> w" and rest: "v \<notin> fst ` set deps" by auto
  show ?case
    using Cons.IH[OF rest] d ne
    by (auto simp: add_downstream_refs_upstream get_node_put_node split: option.splits)
qed

lemma set_node_dependencies_applied:
  "distinct (map fst deps) \<Longrightarrow> applied deps (set_node_dependencies deps s)"
proof (induction deps arbitrary: s)
  case Nil
  then show ?case by (simp add: applied_def)
next
  case (Cons d deps)
  obtain v ups where d: "d = (v, ups)" by (cases d)
  from Cons.prems d have vnot: "v \<notin> fst ` set deps" and dist: "distinct (map fst deps)" by auto
  let ?s1 = "(case get_node s v of None \<Rightarrow> s | Some n \<Rightarrow>
               add_downstream_refs v ups (put_node v (n\<lparr>upstream_nodes := ups\<rparr>) s))"
  let ?s2 = "set_node_dependencies deps ?s1"
  have eq: "set_node_dependencies (d # deps) s = ?s2" using d by simp
  have tail: "applied deps ?s2" by (rule Cons.IH[OF dist])
  have head: "upstream_nodes n2 = ups \<and> (\<forall>u \<in> set ups. get_node ?s2 u \<noteq> None \<longrightarrow> v \<in> dset ?s2 u)"
    if n2: "get_node ?s2 v = Some n2" for n2
  proof -
    have "get_node ?s1 v \<noteq> None"
      using n2 set_node_dependencies_registered[of deps ?s1 v] by auto
    then have "get_node s v \<noteq> None"
      by (cases "get_node s v") simp_all
    then obtain n where n: "get_node s v = Some n" by auto
    let ?p = "put_node v (n\<lparr>upstream_nodes := ups\<rparr>) s"
    have s1: "?s1 = add_downstream_refs v ups ?p" using n by simp
    have "map_option upstream_nodes (get_node ?s2 v) = map_option upstream_nodes (get_node ?s1 v)"
      by (rule set_node_dependencies_upstream_other[OF vnot])
    also have "\<dots> = Some ups"
      unfolding s1 by (simp add: add_downstream_refs_upstream get_node_put_node)
    finally have a: "upstream_nodes n2 = ups" using n2 by simp
    have b: "v \<in> dset ?s2 u" if "u \<in> set ups" "get_node ?s2 u \<noteq> None" for u
    proof -
      have "get_node ?p u \<noteq> None"
        using that(2) unfolding s1
        by (simp add: set_node_dependencies_registered add_downstream_refs_registered)
      then have "v \<in> dset ?s1 u"
        unfolding s1 using that(1) by (simp add: add_downstream_refs_dset)
      then show ?thesis using set_node_dependencies_dset_mono[of ?s1 u deps] by auto
    qed
    from a b show ?thesis by blast
  qed
  show ?case
    unfolding eq applied_def
  proof (intro allI impI, elim conjE)
    fix w wups n
    assume mem: "(w, wups) \<in> set (d # deps)" and g: "get_node ?s2 w = Some n"
    show "upstream_nodes n = wups \<and> (\<forall>u\<in>set wups. get_node ?s2 u \<noteq> None \<longrightarrow> w \<in> dset ?s2 u)"
    proof (cases "(w, wups) = d")
      case True
      with d head[of n] g show ?thesis by auto
    next
      case False
      with mem have "(w, wups) \<in> set deps" by simp
      with tail g show ?thesis unfolding applied_def by blast
    qed
  qed
qed

lemma set_node_dependencies_idempotent:
  "distinct (map fst deps) \<Longrightarrow>
   set_node_dependencies deps (set_node_dependencies deps s) = set_node_dependencies deps s"
  by (rule set_node_dependencies_noop[OF set_node_dependencies_applied])

lemma set_node_dependencies_sound:
  "distinct (map fst deps) \<Longrightarrow> downstream_sound s \<Longrightarrow> unreferenced (fst ` set deps) s \<Longrightarrow>
   downstream_sound (set_node_dependencies deps s)"
proof (induction deps arbitrary: s)
  case Nil
  then show ?case by simp
next
  case (Cons d deps)
  obtain v ups where d: "d = (v, ups)" by (cases d)
  from Cons.prems d have vnot: "v \<notin> fst ` set deps" and dist: "distinct (map fst deps)" by auto
  have rest: "unreferenced (fst ` set deps) s"
    using Cons.prems(3) by (simp add: unreferenced_def)
  have fresh: "v \<notin> dset s u" for u
    using Cons.prems(3) d by (simp add: unreferenced_def)
  show ?case
  proof (cases "get_node s v")
    case None
    with Cons.IH[OF dist Cons.prems(2) rest] d show ?thesis by simp
  next
    case (Some n)
    let ?s1 = "add_downstream_refs v ups (put_node v (n\<lparr>upstream_nodes := ups\<rparr>) s)"
    have sound1: "downstream_sound ?s1"
      unfolding downstream_sound_def
    proof (intro allI impI, elim conjE)
      fix u w nw
      assume w: "get_node ?s1 w = Some nw" and mem: "w \<in> dset ?s1 u"
      have upw: "Some (upstream_nodes nw) =
                   (if w = v then Some ups else map_option upstream_nodes (get_node s w))"
        using set_deps_step_upstream[OF Some, of ups w] w by simp
      show "u \<in> set (upstream_nodes nw)"
      proof (cases "w = v")
        case True
        with mem fresh[of u] have "u \<in> set ups"
          by (simp add: set_deps_step_dset[OF Some] split: if_splits)
        with upw True show ?thesis by simp
      next
        case False
        with mem have m0: "w \<in> dset s u"
          by (simp add: set_deps_step_dset[OF Some] split: if_splits)
        from upw False obtain nw0 where "get_node s w = Some nw0" "upstream_nodes nw0 = upstream_nodes nw"
          by (cases "get_node s w") auto
        with Cons.prems(2) m0 show ?thesis unfolding downstream_sound_def by metis
      qed
    qed
    have unref1: "unreferenced (fst ` set deps) ?s1"
      unfolding unreferenced_def
    proof (intro allI impI)
      fix w u assume "w \<in> fst ` set deps"
      with vnot rest show "w \<notin> dset ?s1 u"
        by (auto simp: set_deps_step_dset[OF Some] unreferenced_def)
    qed
    from Cons.IH[OF dist sound1 unref1] Some d show ?thesis by simp
  qed
qed

lemma applied_covers:
  assumes "applied deps s"
    and "\<forall>k n. get_node s k = Some n \<and> upstream_nodes n \<noteq> [] \<longrightarrow> k \<in> fst ` set deps"
  shows "downstream_covers s"
  unfolding downstream_covers_def
proof (intro allI impI, elim conjE)
  fix u v nv
  assume v: "get_node s v = Some nv" and e: "u \<in> set (upstream_nodes nv)" and u: "get_node s u \<noteq> None"
  from e have "upstream_nodes nv \<noteq> []" by auto
  with assms(2) v obtain ups where "(v, ups) \<in> set deps" by fastforce
  with assms(1) v have "upstream_nodes nv = ups \<and> (\<forall>u \<in> set ups. get_node s u \<noteq> None \<longrightarrow> v \<in> dset s u)"
    unfolding applied_def by blast
  with e u show "v \<in> dset s u" by blast
qed

lemma set_node_dependencies_exact_inverse:
  assumes "first_call deps s"
  shows "exact_inverse (set_node_dependencies deps s)"
proof -
  let ?s' = "set_node_dependencies deps s"
  from assms have dist: "distinct (map fst deps)"
    and empty: "\<forall>k n. get_node s k = Some n \<longrightarrow> downstream_nodes n = []"
    and keys: "\<forall>k n. get_node s k = Some n \<and> upstream_nodes n \<noteq> [] \<longrightarrow> k \<in> fst ` set deps"
    unfolding first_call_def by blast+
  have d0: "dset s k = {}" for k
    using empty by (auto simp: dset_def split: option.splits)
  have "downstream_sound s" by (simp add: downstream_sound_def d0)
  moreover have "unreferenced (fst ` set deps) s" by (simp add: unreferenced_def d0)
  ultimately have sound: "downstream_sound ?s'"
    using set_node_dependencies_sound[OF dist] by blast
  have keys': "\<forall>k n. get_node ?s' k = Some n \<and> upstream_nodes n \<noteq> [] \<longrightarrow> k \<in> fst ` set deps"
  proof (intro allI impI, elim conjE)
    fix k n assume k: "get_node ?s' k = Some n" and ne: "upstream_nodes n \<noteq> []"
    show "k \<in> fst ` set deps"
    proof (rule ccontr)
      assume notin: "k \<notin> fst ` set deps"
      from set_node_dependencies_upstream_other[OF notin, of s] k
      obtain n0 where "get_node s k = Some n0" "upstream_nodes n0 = upstream_nodes n"
        by (cases "get_node s k") auto
      with keys ne notin show False by metis
    qed
  qed
  have covers: "downstream_covers ?s'"
    by (rule applied_covers[OF set_node_dependencies_applied[OF dist] keys'])
  show ?thesis
    unfolding exact_inverse_def
  proof (intro allI impI, elim conjE)
    fix u v nu nv
    assume u: "get_node ?s' u = Some nu" and v: "get_node ?s' v = Some nv"
    have du: "dset ?s' u = set (downstream_nodes nu)" using u by (simp add: dset_def)
    show "(u \<in> set (upstream_nodes nv)) = (v \<in> set (downstream_nodes nu))"
    proof
      assume "u \<in> set (upstream_nodes nv)"
      with covers u v have "v \<in> dset ?s' u" unfolding downstream_covers_def by blast
      then show "v \<in> set (downstream_nodes nu)" by (simp add: du)
    next
      assume "v \<in> set (downstream_nodes nu)"
      then have "v \<in> dset ?s' u" by (simp add: du)
      with sound v show "u \<in> set (upstream_nodes nv)" unfolding downstream_sound_def by blast
    qed
  qed
qed

text \<open>
  C9, as the code has it. A call adds \<open>v\<close> to the downstream list of every registered
  node named in the new upstream list of \<open>v\<close> and never removes an entry. So the first
  call on nodes without downstream entries leaves an exact inverse; any call keeps
  "\<open>u\<close> in the upstream list of \<open>v\<close> implies \<open>v\<close> in the downstream list of \<open>u\<close>" between
  registered nodes; and a call repeated with the same map changes nothing.
\<close>

theorem set_node_dependencies_inverse:
  "(first_call deps s \<longrightarrow> exact_inverse (set_node_dependencies deps s))
   \<and> (downstream_covers s \<longrightarrow> downstream_covers (set_node_dependencies deps s))
   \<and> (distinct (map fst deps) \<longrightarrow>
        set_node_dependencies deps (set_node_dependencies deps s) = set_node_dependencies deps s)"
  using set_node_dependencies_exact_inverse set_node_dependencies_covers
    set_node_dependencies_idempotent by blast

lemma edgeless_nodes:
  "get_node edgeless_scheduler k = Some n \<Longrightarrow> upstream_nodes n = [] \<and> downstream_nodes n = []"
  by (auto simp: edgeless_scheduler_def register_nodes_def register_node_def put_node_def
        add_listener_def get_node_def create_scheduler_def ExecutionNode_def split: if_splits)

theorem set_node_dependencies_inverse_witness:
  "first_call [(''D'', [''B'', ''C''])] edgeless_scheduler
   \<and> exact_inverse (set_node_dependencies [(''D'', [''B'', ''C''])] edgeless_scheduler)
   \<and> downstream_covers edgeless_scheduler
   \<and> downstream_covers (set_node_dependencies [(''D'', [''B'', ''C''])] edgeless_scheduler)
   \<and> distinct (map fst [(''D'', [''B'', ''C''])])
   \<and> set_node_dependencies [(''D'', [''B'', ''C''])]
        (set_node_dependencies [(''D'', [''B'', ''C''])] edgeless_scheduler)
       = set_node_dependencies [(''D'', [''B'', ''C''])] edgeless_scheduler"
proof -
  have f: "first_call [(''D'', [''B'', ''C''])] edgeless_scheduler"
    unfolding first_call_def using edgeless_nodes by auto
  have c: "downstream_covers edgeless_scheduler"
    unfolding downstream_covers_def using edgeless_nodes by fastforce
  have d: "distinct (map fst [(''D'', [''B'', ''C''])])" by simp
  from set_node_dependencies_inverse[of "[(''D'', [''B'', ''C''])]" edgeless_scheduler] f c d
  show ?thesis by blast
qed

text \<open>
  C9 as stated fails: after the map \<open>{D: [B]}\<close> and then \<open>{D: [C]}\<close>, D is still in the
  downstream list of B, and B is not in the upstream list of D.
\<close>

theorem stale_downstream_entry:
  "map_option downstream_nodes (get_node rewired_scheduler ''B'') = Some [''D'']
   \<and> map_option upstream_nodes (get_node rewired_scheduler ''D'') = Some [''C'']"
  by code_simp

section \<open>Resolution of dependency references\<close>




section \<open>Node-level context isolation\<close>

text \<open>Whatever the manager holds, a node sees only node-level records that name it.\<close>

lemma visible_node_records_owned:
  "r \<in> set (get_visible_context now a proj sess m L3_NODE) \<Longrightarrow> node_id r = Some a"
  by (simp add: get_visible_context_def)

text \<open>
  C10 (code defect). Node a has one node-level record. A record with the same content
  is then created for node b within the same second: it gets the same record id and
  replaces the record of a in the layer, so the node-level context visible to a changes
  from one record to none.
\<close>

theorem colliding_record_id_hides_context:
  "map node_id (get_visible_context 1700000001000000 ''node_a'' None None manager_a L3_NODE)
     = [Some ''node_a'']
   \<and> get_visible_context 1700000001000000 ''node_a'' None None manager_ab L3_NODE = []
   \<and> map node_id (map snd (layers manager_ab L3_NODE)) = [Some ''node_b'']
   \<and> make_record_id L3_NODE team_prompt 1700000000000000
       = make_record_id L3_NODE team_prompt 1700000000400000"
  by code_simp

theorem colliding_record_id_hides_context_witness:
  "length (get_visible_context 1700000001000000 ''node_a'' None None manager_a L3_NODE) = 1
   \<and> length (get_visible_context 1700000001000000 ''node_a'' None None manager_ab L3_NODE) = 0"
proof -
  from colliding_record_id_hides_context
  have a: "map node_id
             (get_visible_context 1700000001000000 ''node_a'' None None manager_a L3_NODE)
           = [Some ''node_a'']"
    and b: "get_visible_context 1700000001000000 ''node_a'' None None manager_ab L3_NODE = []"
    by blast+
  have "length (map node_id
          (get_visible_context 1700000001000000 ''node_a'' None None manager_a L3_NODE)) = 1"
    by (simp only: a) simp
  then have "length (get_visible_context 1700000001000000 ''node_a'' None None manager_a L3_NODE) = 1"
    by (simp only: length_map)
  moreover have "length (get_visible_context 1700000001000000 ''node_a'' None None manager_ab L3_NODE) = 0"
    by (simp only: b) simp
  ultimately show ?thesis by blast
qed

section \<open>Effect of the state updates on states and on the graph\<close>


lemma listeners_of_write_state [simp]:
  "listeners_of (write_state k n new_state s) x = listeners_of s x"
  by (simp add: listeners_of_def write_state_def put_node_def)





lemma static_of_state_log [simp]: "static_of (s\<lparr>state_log := l\<rparr>) = static_of s"
  by (simp add: static_of_def)












subsection \<open>States\<close>


lemma state_of_state_log [simp]: "state_of (s\<lparr>state_log := l\<rparr>) = state_of s"
  by (rule ext) (simp add: state_of_def get_node_def)














subsection \<open>Well-formed graphs\<close>












subsection \<open>One completion inside a batch\<close>











subsection \<open>Dispatch\<close>


section \<open>A run on an acyclic graph with an executor that always returns\<close>

subsection \<open>One batch\<close>








subsection \<open>The loop\<close>








subsection \<open>Registration and seeding\<close>




lemma nodes_add_listener [simp]: "nodes (add_listener k cb s) = nodes s"
  by (simp add: add_listener_def)

lemma fold_add_listener_nodes [simp]:
  "nodes (fold (\<lambda>n. add_listener (nid n) cb) ns s) = nodes s"
  by (induction ns arbitrary: s) simp_all











subsection \<open>The status map\<close>





subsection \<open>The whole run\<close>





section \<open>Readiness and upstream completion\<close>







subsection \<open>The seeded state\<close>



subsection \<open>Reachable states\<close>



subsection \<open>The states of the loop are reachable\<close>











subsection \<open>Upstream ids of a ready node\<close>













subsection \<open>Registration\<close>





lemma get_node_add_listener [simp]: "get_node (add_listener k cb s) = get_node s"
  by (rule ext) (simp add: get_node_def add_listener_def)

lemma get_node_fold_add_listener [simp]:
  "get_node (fold (\<lambda>n. add_listener (nid n) cb) ns s) = get_node s"
  by (induction ns arbitrary: s) simp_all




subsection \<open>The states of a run\<close>





section \<open>Promotion to ready\<close>

text \<open>
  C1. The module's own example registers the four nodes, sets the dependencies and calls
  \<open>execute_dag\<close>, which registers the nodes again: every node then has the trigger
  listener twice. When the second parent of the last node completes, both listeners find
  all upstream nodes \<open>completed\<close> and both promote: the log of state changes of the last
  node has \<open>idle\<close> to \<open>ready\<close> followed by \<open>ready\<close> to \<open>ready\<close>, two promotions, in either
  completion order of the two parents.
\<close>

theorem diamond_last_node_promoted_twice:
  "listeners_of diamond_scheduler ''node_3'' = [OnStateChange]
   \<and> listeners_of (fst (snd diamond_run)) ''node_3'' = [OnStateChange, OnStateChange]
   \<and> filter (\<lambda>e. fst e = ''node_4'') (state_log (fst (snd diamond_run)))
       = [(''node_4'', IDLE, READY), (''node_4'', READY, READY),
          (''node_4'', READY, EXECUTING), (''node_4'', EXECUTING, COMPLETED)]
   \<and> ready_transitions ''node_4'' (fst (snd diamond_run)) = 2
   \<and> ready_transitions ''node_4''
         (fst (snd (execute_dag always_ok in_dispatch_order
                      (map snd (nodes diamond_scheduler)) diamond_scheduler))) = 2"
  by code_simp

text \<open>
  With the nodes registered once, each node has the listener once and the last node of
  the diamond is promoted once.
\<close>

lemma prewired_diamond_promoted_once:
  "listeners_of (fst (snd prewired_run)) ''node_3'' = [OnStateChange]
   \<and> filter (\<lambda>e. fst e = ''node_4'') (state_log (fst (snd prewired_run)))
       = [(''node_4'', IDLE, READY), (''node_4'', READY, EXECUTING),
          (''node_4'', EXECUTING, COMPLETED)]
   \<and> ready_transitions ''node_4'' (fst (snd prewired_run)) = 1"
  by code_simp

end
